theory Spec2Isabelle
  imports Complex_Main
begin

section \<open>The snake game of main.js\<close>

text \<open>
  The script keeps its game state in top-level variables and is driven by three
  entry points that the Phaser framework calls: \<^verbatim>\<open>create\<close> (once, which calls
  \<^verbatim>\<open>initGame\<close>), \<^verbatim>\<open>update\<close> (every frame) and the callback of the repeating timer
  that \<^verbatim>\<open>initGame\<close> registers. Rendering objects (rectangles, texts) and the timer
  handle \<^verbatim>\<open>moveEvent\<close> carry no game logic and are left out; the one exception is
  \<^verbatim>\<open>this.gameOverText\<close>, whose truthiness is the script's only record of
  "game over".
\<close>

subsection \<open>Constants and data\<close>

definition COLS :: int where
  "COLS = 40"

definition ROWS :: int where
  "ROWS = 30"

text \<open>A grid cell \<^verbatim>\<open>{x, y}\<close>; JavaScript numbers that only ever hold integers.\<close>

type_synonym cell = "int \<times> int"

text \<open>The four entries of the table \<^verbatim>\<open>DIR\<close>, with their \<^verbatim>\<open>x\<close> and \<^verbatim>\<open>y\<close> offsets.\<close>

datatype direction = DIR_left | DIR_right | DIR_up | DIR_down

fun dir_x :: "direction \<Rightarrow> int" where
  "dir_x DIR_left = -1"
| "dir_x DIR_right = 1"
| "dir_x DIR_up = 0"
| "dir_x DIR_down = 0"

fun dir_y :: "direction \<Rightarrow> int" where
  "dir_y DIR_left = 0"
| "dir_y DIR_right = 0"
| "dir_y DIR_up = -1"
| "dir_y DIR_down = 1"

text \<open>
  The top-level variables of the script that hold game data, and
  \<^verbatim>\<open>this.gameOverText\<close> as a flag (\<open>True\<close> when the property is truthy).
\<close>

record game =
  snake :: "cell list"
  direction :: direction
  nextDirection :: direction
  food :: cell
  score :: int
  speedMs :: int
  gameOverText :: bool

text \<open>The arrow keys as \<^verbatim>\<open>update\<close> reads them: \<^verbatim>\<open>cursors.left.isDown\<close> and so on.\<close>

record cursors =
  left_isDown :: bool
  right_isDown :: bool
  up_isDown :: bool
  down_isDown :: bool

datatype error = ReferenceError string

subsection \<open>Double arithmetic\<close>

text \<open>
  JavaScript numbers are IEEE 754 binary64 values, and \<^verbatim>\<open>a * b\<close> is the exact
  product rounded to the nearest of them, ties to the even significand. The
  model keeps numbers as reals and rounds where the script multiplies: \<open>fl x\<close> is
  \<open>x\<close> rounded to binary64. The binade of \<open>x\<close> is its exponent, at least -1022
  (below that the numbers are subnormal and share one spacing); \<open>ulp x\<close> is the
  spacing of binary64 numbers there. Overflow is left out: every product of the
  script is below 64.
\<close>

definition binary64 :: "real set" where
  "binary64 =
     {real_of_int m * 2 powr real_of_int e | m e. \<bar>m\<bar> < 2 ^ 53 \<and> - 1074 \<le> e \<and> e \<le> 971}"
definition binade :: "real \<Rightarrow> int" where
  "binade x = max \<lfloor>log 2 \<bar>x\<bar>\<rfloor> (- 1022)"

definition ulp :: "real \<Rightarrow> real" where
  "ulp x = 2 powr real_of_int (binade x - 52)"

definition round_half_even :: "real \<Rightarrow> int" where
  "round_half_even q =
     (if q - real_of_int \<lfloor>q\<rfloor> < 1 / 2 then \<lfloor>q\<rfloor>
      else if 1 / 2 < q - real_of_int \<lfloor>q\<rfloor> then \<lfloor>q\<rfloor> + 1
      else if even \<lfloor>q\<rfloor> then \<lfloor>q\<rfloor> else \<lfloor>q\<rfloor> + 1)"

definition fl :: "real \<Rightarrow> real" where
  "fl x = (if x = 0 then 0 else real_of_int (round_half_even (x / ulp x)) * ulp x)"

subsection \<open>randomFreeCell\<close>

text \<open>
  \<^verbatim>\<open>Math.random()\<close> is an input of the model: \<open>rnd n\<close> is the result of the
  \<open>n\<close>-th call, a binary64 number in \<open>[0, 1)\<close> (a hypothesis wherever it
  matters). The product \<^verbatim>\<open>Math.random() * COLS\<close> is rounded to binary64 before
  \<^verbatim>\<open>Math.floor\<close> sees it, and \<^verbatim>\<open>Math.floor\<close> is exact. The set of keys
  \<^verbatim>\<open>`${c.x},${c.y}`\<close> is modelled by the set of cells itself, the key being
  injective on integer pairs. The loop \<^verbatim>\<open>while (true)\<close> has no bound, so the
  function is partial: \<open>None\<close> stands for a call that never returns.
\<close>

partial_function (option) randomFreeCell_loop ::
  "(nat \<Rightarrow> real) \<Rightarrow> nat \<Rightarrow> cell set \<Rightarrow> cell option" where
  "randomFreeCell_loop rnd n occupied =
     (if (\<lfloor>fl (rnd n * real_of_int COLS)\<rfloor>, \<lfloor>fl (rnd (Suc n) * real_of_int ROWS)\<rfloor>) \<notin> occupied
      then Some (\<lfloor>fl (rnd n * real_of_int COLS)\<rfloor>, \<lfloor>fl (rnd (Suc n) * real_of_int ROWS)\<rfloor>)
      else randomFreeCell_loop rnd (Suc (Suc n)) occupied)"

definition randomFreeCell :: "cell list \<Rightarrow> (nat \<Rightarrow> real) \<Rightarrow> cell option" where
  "randomFreeCell excludeCells rnd = randomFreeCell_loop rnd 0 (set excludeCells)"

subsection \<open>isOpposite\<close>

definition isOpposite :: "direction \<Rightarrow> direction \<Rightarrow> bool" where
  "isOpposite a b \<longleftrightarrow> dir_x a = - dir_x b \<and> dir_y a = - dir_y b"

subsection \<open>initGame\<close>

text \<open>
  \<^verbatim>\<open>Math.floor(COLS / 2)\<close> is integer division, both constants being positive.
  The call does not return when \<^verbatim>\<open>randomFreeCell\<close> does not.
\<close>

definition initGame :: "(nat \<Rightarrow> real) \<Rightarrow> game \<Rightarrow> game option" where
  "initGame rnd g =
     (let startX = COLS div 2;
          startY = ROWS div 2;
          g1 = g\<lparr>score := 0, direction := DIR_right, nextDirection := DIR_right,
                 snake := [(startX, startY), (startX - 1, startY), (startX - 2, startY)]\<rparr>
      in case randomFreeCell (snake g1) rnd of
           None \<Rightarrow> None
         | Some c \<Rightarrow> Some (g1\<lparr>food := c, speedMs := 130, gameOverText := False\<rparr>))"

subsection \<open>update\<close>

text \<open>
  One frame: the chain of \<^verbatim>\<open>if / else if\<close> over the arrow keys, then the restart
  on the space bar, which the script allows only when \<^verbatim>\<open>this.gameOverText\<close> is set.
\<close>

definition update :: "cursors \<Rightarrow> bool \<Rightarrow> (nat \<Rightarrow> real) \<Rightarrow> game \<Rightarrow> game option" where
  "update c spaceJustDown rnd g =
     (let g1 =
        (if left_isDown c \<and> \<not> isOpposite DIR_left (direction g)
           then g\<lparr>nextDirection := DIR_left\<rparr>
         else if right_isDown c \<and> \<not> isOpposite DIR_right (direction g)
           then g\<lparr>nextDirection := DIR_right\<rparr>
         else if up_isDown c \<and> \<not> isOpposite DIR_up (direction g)
           then g\<lparr>nextDirection := DIR_up\<rparr>
         else if down_isDown c \<and> \<not> isOpposite DIR_down (direction g)
           then g\<lparr>nextDirection := DIR_down\<rparr>
         else g)
      in if gameOverText g1 \<and> spaceJustDown then initGame rnd g1 else Some g1)"

subsection \<open>The timer callback\<close>

text \<open>
  The callback \<^verbatim>\<open>() => stepSnake.call(this)\<close> resolves the identifier
  \<^verbatim>\<open>stepSnake\<close> along its scope chain: the locals of \<^verbatim>\<open>initGame\<close>, the top-level
  declarations of the script, and the host's globals that the script uses. An
  identifier bound nowhere raises a ReferenceError. What a binding would do
  is a parameter, \<open>body\<close>, since the script has none to translate.
\<close>

definition initGame_locals :: "string list" where
  "initGame_locals = [''startX'', ''startY'', ''px'', ''py'']"

definition top_level :: "string list" where
  "top_level =
     [''TILE'', ''COLS'', ''ROWS'', ''WIDTH'', ''HEIGHT'', ''COLORS'', ''DIR'', ''config'',
      ''snake'', ''snakeRects'', ''direction'', ''nextDirection'', ''food'', ''score'',
      ''scoreText'', ''moveEvent'', ''speedMs'', ''cursors'', ''spaceKey'',
      ''gridToPixelCenter'', ''randomFreeCell'', ''isOpposite'', ''preload'', ''create'',
      ''initGame'', ''update'']"

definition host_globals :: "string list" where
  "host_globals = [''Phaser'', ''Math'']"

definition moveEvent_callback :: "(game \<Rightarrow> error + game) \<Rightarrow> game \<Rightarrow> error + game" where
  "moveEvent_callback body g =
     (if ''stepSnake'' \<in> set (initGame_locals @ top_level @ host_globals)
      then body g
      else Inl (ReferenceError ''stepSnake''))"

text \<open>The variables after one tick of the timer: an exception leaves them as they were.\<close>

definition after_tick :: "(game \<Rightarrow> error + game) \<Rightarrow> game \<Rightarrow> game" where
  "after_tick body g = (case moveEvent_callback body g of Inl e \<Rightarrow> g | Inr g' \<Rightarrow> g')"

fun ticks :: "nat \<Rightarrow> (game \<Rightarrow> error + game) \<Rightarrow> game \<Rightarrow> game" where
  "ticks 0 body g = g"
| "ticks (Suc k) body g = ticks k body (after_tick body g)"

subsection \<open>The program as a transition system\<close>

text \<open>
  One operation of the program: \<^verbatim>\<open>create\<close> (that is, \<^verbatim>\<open>initGame\<close>), a frame
  (\<^verbatim>\<open>update\<close>) or a tick of the timer. The reachable states are those after
  \<^verbatim>\<open>create\<close> and any operations that follow. Phaser calls \<^verbatim>\<open>create\<close> once, at the
  start; the relation allows it at any point, which only adds runs.
\<close>

inductive operation :: "(game \<Rightarrow> error + game) \<Rightarrow> game \<Rightarrow> game \<Rightarrow> bool"
  for body :: "game \<Rightarrow> error + game" where
  op_create: "initGame rnd g = Some g' \<Longrightarrow> operation body g g'"
| op_update: "update c spaceJustDown rnd g = Some g' \<Longrightarrow> operation body g g'"
| op_tick: "operation body g (after_tick body g)"

inductive reachable :: "(game \<Rightarrow> error + game) \<Rightarrow> game \<Rightarrow> bool"
  for body :: "game \<Rightarrow> error + game" where
  r_create: "initGame rnd g0 = Some g \<Longrightarrow> reachable body g"
| r_step: "reachable body g \<Longrightarrow> operation body g g' \<Longrightarrow> reachable body g'"

subsection \<open>Vocabulary of the statements\<close>

definition in_grid :: "cell \<Rightarrow> bool" where
  "in_grid c \<longleftrightarrow> 0 \<le> fst c \<and> fst c < COLS \<and> 0 \<le> snd c \<and> snd c < ROWS"

text \<open>The candidate cell that the loop of \<^verbatim>\<open>randomFreeCell\<close> tries in its \<open>k\<close>-th round.\<close>

definition candidate :: "(nat \<Rightarrow> real) \<Rightarrow> nat \<Rightarrow> cell" where
  "candidate rnd k =
     (\<lfloor>fl (rnd (2 * k) * real_of_int COLS)\<rfloor>, \<lfloor>fl (rnd (Suc (2 * k)) * real_of_int ROWS)\<rfloor>)"

text \<open>What \<^verbatim>\<open>Math.random()\<close> may return: binary64 numbers in \<open>[0, 1)\<close>.\<close>

definition math_random :: "(nat \<Rightarrow> real) \<Rightarrow> bool" where
  "math_random rnd \<longleftrightarrow> (\<forall>n. rnd n \<in> binary64 \<and> 0 \<le> rnd n \<and> rnd n < 1)"


text \<open>The state that \<^verbatim>\<open>initGame\<close> builds, up to the food cell.\<close>

definition initial_snake :: "cell list" where
  "initial_snake = [(20, 15), (19, 15), (18, 15)]"

text \<open>A request for one direction: that arrow key alone is down.\<close>

fun only_key :: "direction \<Rightarrow> cursors" where
  "only_key DIR_left = \<lparr>left_isDown = True, right_isDown = False, up_isDown = False, down_isDown = False\<rparr>"
| "only_key DIR_right = \<lparr>left_isDown = False, right_isDown = True, up_isDown = False, down_isDown = False\<rparr>"
| "only_key DIR_up = \<lparr>left_isDown = False, right_isDown = False, up_isDown = True, down_isDown = False\<rparr>"
| "only_key DIR_down = \<lparr>left_isDown = False, right_isDown = False, up_isDown = False, down_isDown = True\<rparr>"

text \<open>Sources of random numbers for concrete runs.\<close>

definition always_zero :: "nat \<Rightarrow> real" where
  "always_zero n = 0"

definition always_17_32 :: "nat \<Rightarrow> real" where
  "always_17_32 n = 17 / 32"

text \<open>
  Draws that try the cells of the grid one after the other, column by column:
  round \<open>k\<close> draws the least multiple of 1/64 whose product with 40 reaches the
  column, and the least multiple of 1/32 whose product with 30 reaches the row.
\<close>

definition sweep :: "nat \<Rightarrow> real" where
  "sweep n =
     (if even n then real_of_int ((8 * int (n div 2 div 30 mod 40) + 4) div 5) / 64
      else real_of_int ((16 * int (n div 2 mod 30) + 14) div 15) / 32)"

text \<open>Every cell of the grid, for a call on a grid with no free cell.\<close>

definition full_grid :: "cell list" where
  "full_grid = List.product [0..COLS - 1] [0..ROWS - 1]"

subsection \<open>Concrete states\<close>

text \<open>The state after \<^verbatim>\<open>initGame\<close> when the first candidate drawn for the food is (0, 0).\<close>

definition started :: game where
  "started = \<lparr>snake = [(20, 15), (19, 15), (18, 15)], direction = DIR_right,
     nextDirection = DIR_right, food = (0, 0), score = 0, speedMs = 130,
     gameOverText = False\<rparr>"

text \<open>The state after \<^verbatim>\<open>initGame\<close> when the food lands right in front of the head.\<close>

definition food_ahead :: game where
  "food_ahead = \<lparr>snake = [(20, 15), (19, 15), (18, 15)], direction = DIR_right,
     nextDirection = DIR_right, food = (21, 15), score = 0, speedMs = 130,
     gameOverText = False\<rparr>"

text \<open>A state in which the game-over text is on the screen.\<close>

definition game_over :: game where
  "game_over = \<lparr>snake = [(0, 15), (1, 15), (2, 15)], direction = DIR_left,
     nextDirection = DIR_left, food = (5, 5), score = 70, speedMs = 130,
     gameOverText = True\<rparr>"

section \<open>Properties of rounding\<close>

lemma ulp_pos: "0 < ulp x"
  by (simp add: ulp_def)

lemma round_half_even_of_int: "round_half_even (real_of_int n) = n"
  by (simp add: round_half_even_def)

lemma round_half_even_nonneg: "0 \<le> q \<Longrightarrow> 0 \<le> round_half_even q"
  by (simp add: round_half_even_def)

lemma round_half_even_le: "q \<le> real_of_int n \<Longrightarrow> round_half_even q \<le> n"
  unfolding round_half_even_def by (auto simp add: floor_le_iff)

lemma round_half_even_less: "q < real_of_int n - 1 / 2 \<Longrightarrow> round_half_even q < n"
  unfolding round_half_even_def by (auto simp add: floor_less_iff)

lemma fl_nonneg: "0 \<le> x \<Longrightarrow> 0 \<le> fl x"
  using ulp_pos [of x] by (simp add: fl_def round_half_even_nonneg)

lemma fl_exact_ulp:
  assumes "x / ulp x = real_of_int n"
  shows "fl x = x"
proof -
  from assms have "x = real_of_int n * ulp x"
    using ulp_pos [of x] by (simp add: field_simps)
  then show ?thesis
    using assms by (simp add: fl_def round_half_even_of_int)
qed

lemma binade_less:
  assumes "x \<noteq> 0" "\<bar>x\<bar> < 2 ^ k"
  shows "binade x < int k"
proof -
  from assms have "log 2 \<bar>x\<bar> < real k"
    by (simp add: log_less_iff powr_realpow)
  then have "\<lfloor>log 2 \<bar>x\<bar>\<rfloor> < int k"
    by (simp add: floor_less_iff)
  then show ?thesis by (simp add: binade_def)
qed

lemma binade_eq:
  assumes "2 ^ k \<le> x" "x < 2 ^ Suc k"
  shows "binade x = int k"
proof -
  from assms have pos: "0 < x"
    by (smt (verit) zero_less_power)
  with assms have "real k \<le> log 2 x" "log 2 x < real k + 1"
    by (simp_all add: le_log_iff log_less_iff powr_realpow powr_add)
  then have "\<lfloor>log 2 x\<rfloor> = int k"
    by (simp add: floor_eq_iff)
  with pos show ?thesis by (simp add: binade_def)
qed

lemma ulp_eq:
  assumes "binade x = b" "b \<le> 52"
  shows "ulp x = 1 / 2 ^ nat (52 - b)"
proof -
  have "2 powr real_of_int (b - 52) = 2 powr (- real (nat (52 - b)))"
    using assms(2) by simp
  also have "\<dots> = 1 / 2 ^ nat (52 - b)"
    by (simp add: powr_minus powr_realpow field_simps)
  finally show ?thesis by (simp add: ulp_def assms(1))
qed

lemma fl_le_pow2:
  assumes "0 \<le> x" "x < 2 ^ k" "k \<le> 52"
  shows "fl x \<le> 2 ^ k"
proof (cases "x = 0")
  case True
  then show ?thesis by (simp add: fl_def)
next
  case False
  define b where "b = binade x"
  from False assms have b: "b < int k"
    unfolding b_def by (intro binade_less) simp_all
  with assms(3) have b52: "b \<le> 52" by simp
  define t where "t = nat (52 - b)"
  have u: "ulp x = 1 / 2 ^ t"
    unfolding t_def using b52 by (intro ulp_eq) (simp_all add: b_def)
  have "x / ulp x = x * 2 ^ t" by (simp add: u)
  also have "\<dots> \<le> 2 ^ k * 2 ^ t"
    using assms(2) by simp
  also have "\<dots> = real_of_int (2 ^ (k + t))"
    by (simp add: power_add)
  finally have "round_half_even (x / ulp x) \<le> 2 ^ (k + t)"
    by (rule round_half_even_le)
  then have "real_of_int (round_half_even (x / ulp x)) \<le> 2 ^ (k + t)"
    by (metis of_int_le_iff of_int_numeral of_int_power)
  then have "real_of_int (round_half_even (x / ulp x)) * ulp x \<le> 2 ^ (k + t) * ulp x"
    using ulp_pos [of x] by simp
  also have "\<dots> = 2 ^ k"
    by (simp add: u power_add)
  finally show ?thesis using False by (simp add: fl_def)
qed

lemma fl_scaled_below:
  assumes r: "0 \<le> r" "r \<le> 1 - 1 / 2 ^ 53"
    and c: "2 ^ k < real_of_int c" "real_of_int c \<le> 2 ^ Suc k" and k: "k \<le> 51"
  shows "fl (r * real_of_int c) < real_of_int c"
proof (cases "r * real_of_int c < 2 ^ k")
  case True
  have cpos: "0 < real_of_int c"
    using c(1) zero_less_power [of "2::real" k] by linarith
  with r(1) have "0 \<le> r * real_of_int c"
    by simp
  from fl_le_pow2 [OF this True] k have "fl (r * real_of_int c) \<le> 2 ^ k" by simp
  with c(1) show ?thesis by linarith
next
  case False
  define x where "x = r * real_of_int c"
  define C where "C = real_of_int c"
  define t where "t = 52 - k"
  define d where "d = (1::real) / (2 ^ t * 2 ^ Suc k)"
  have tk: "t + Suc k = 53" using k by (simp add: t_def)
  have "(2::real) ^ 53 = 2 ^ t * 2 ^ Suc k"
    by (simp only: tk [symmetric] power_add)
  with r(2) have rd: "r \<le> 1 - d" by (simp only: d_def)
  have cpos: "0 < C"
    unfolding C_def using c(1) zero_less_power [of "2::real" k] by linarith
  have dpos: "0 < d" by (simp add: d_def)
  from False have lo: "2 ^ k \<le> x" by (simp add: x_def)
  from rd cpos have "r * C \<le> (1 - d) * C"
    by (intro mult_right_mono) simp_all
  then have xle: "x \<le> C - C * d"
    by (simp add: x_def C_def algebra_simps)
  from cpos dpos have "0 < C * d" by simp
  with xle have "x < C" by linarith
  with c(2) have hi: "x < 2 ^ Suc k" by (simp add: C_def)
  from binade_eq [OF lo hi] have b: "binade x = int k" .
  have u: "ulp x = 1 / 2 ^ t"
    using ulp_eq [OF b] k by (simp add: t_def nat_diff_distrib)
  have "C * d * 2 ^ t = C / 2 ^ Suc k"
    by (simp add: d_def)
  moreover have "1 / 2 < C / 2 ^ Suc k"
    using c(1) by (simp add: C_def field_simps)
  ultimately have half: "1 / 2 < C * d * 2 ^ t" by simp
  have "x / ulp x = x * 2 ^ t" by (simp add: u)
  also from xle have "\<dots> \<le> (C - C * d) * 2 ^ t"
    by (intro mult_right_mono) simp_all
  also have "\<dots> = C * 2 ^ t - C * d * 2 ^ t"
    by (simp add: algebra_simps)
  also from half have "\<dots> < C * 2 ^ t - 1 / 2" by linarith
  also have "C * 2 ^ t = real_of_int (c * 2 ^ t)"
    by (simp add: C_def)
  finally have "round_half_even (x / ulp x) < c * 2 ^ t"
    by (rule round_half_even_less)
  then have "round_half_even (x / ulp x) \<le> c * 2 ^ t - 1"
    by simp
  then have "real_of_int (round_half_even (x / ulp x)) \<le> real_of_int (c * 2 ^ t - 1)"
    by (simp only: of_int_le_iff)
  then have "real_of_int (round_half_even (x / ulp x)) * ulp x \<le> real_of_int (c * 2 ^ t - 1) * ulp x"
    using ulp_pos [of x] by (intro mult_right_mono) simp_all
  also have "\<dots> = C - 1 / 2 ^ t"
    by (simp add: u C_def field_simps)
  also have "\<dots> < C"
    by simp
  finally have "fl x < C"
    using cpos by (simp add: fl_def)
  then show ?thesis by (simp add: x_def C_def)
qed

lemma binary64_below_one:
  assumes "x \<in> binary64" "x < 1"
  shows "x \<le> 1 - 1 / 2 ^ 53"
proof -
  from assms(1) obtain m e where x: "x = real_of_int m * 2 powr real_of_int e"
    and m: "\<bar>m\<bar> < 2 ^ 53" by (auto simp add: binary64_def)
  show ?thesis
  proof (cases "- 53 \<le> e")
    case True
    define j where "j = nat (e + 53)"
    have "2 powr real_of_int e * 2 ^ 53 = 2 powr (real_of_int e + 53)"
      by (simp add: powr_add)
    also have "\<dots> = 2 powr real j"
      using True by (simp add: j_def)
    also have "\<dots> = 2 ^ j" by (simp add: powr_realpow)
    finally have "x * 2 ^ 53 = real_of_int (m * 2 ^ j)"
      by (simp add: x)
    moreover from assms(2) have "x * 2 ^ 53 < real_of_int (2 ^ 53)"
      by simp
    ultimately have "m * 2 ^ j < 2 ^ 53"
      by (simp only: of_int_less_iff)
    then have "m * 2 ^ j \<le> 2 ^ 53 - 1" by simp
    then have "real_of_int (m * 2 ^ j) \<le> real_of_int (2 ^ 53 - 1)"
      by (simp only: of_int_le_iff)
    with \<open>x * 2 ^ 53 = real_of_int (m * 2 ^ j)\<close> have "x * 2 ^ 53 \<le> 2 ^ 53 - 1"
      by simp
    then show ?thesis by (simp add: field_simps)
  next
    case False
    then have "real_of_int e \<le> - 54" by simp
    then have "2 powr real_of_int e \<le> 2 powr (- 54)"
      by (simp only: powr_le_cancel_iff) 
    also have "\<dots> = 1 / 2 ^ 54"
      by (simp add: powr_minus_divide)
    finally have p: "2 powr real_of_int e \<le> 1 / 2 ^ 54" .
    have "x \<le> \<bar>real_of_int m\<bar> * 2 powr real_of_int e"
      by (simp add: x mult_right_mono)
    also have "\<dots> \<le> 2 ^ 53 * 2 powr real_of_int e"
    proof -
      from m have "\<bar>m\<bar> \<le> 2 ^ 53" by simp
      then have "real_of_int \<bar>m\<bar> \<le> real_of_int (2 ^ 53)"
        by (simp only: of_int_le_iff)
      then show ?thesis by (simp add: mult_right_mono)
    qed
    also have "\<dots> \<le> 2 ^ 53 * (1 / 2 ^ 54)"
      using p by (simp only: mult_left_mono zero_le_numeral zero_le_power)
    finally show ?thesis by simp
  qed
qed

lemma fl_exact:
  assumes "x = real_of_int n / 2 ^ j" "\<bar>x\<bar> < 64" "j \<le> 46"
  shows "fl x = x"
proof (cases "x = 0")
  case True
  then show ?thesis by (simp add: fl_def)
next
  case False
  define b where "b = binade x"
  from False assms(2) have "binade x < int 6"
    by (intro binade_less) simp_all
  then have b: "b \<le> 5" by (simp add: b_def)
  define t where "t = nat (52 - b)"
  have u: "ulp x = 1 / 2 ^ t"
    unfolding t_def using b by (intro ulp_eq) (simp_all add: b_def)
  have "j \<le> t" using b assms(3) by (simp add: t_def)
  then have p: "(2::real) ^ t = 2 ^ (t - j) * 2 ^ j"
    by (simp add: power_add [symmetric])
  have "x / ulp x = x * 2 ^ t"
    by (simp add: u)
  also have "\<dots> = real_of_int n / 2 ^ j * (2 ^ (t - j) * 2 ^ j)"
    by (simp only: assms(1) p)
  also have "\<dots> = real_of_int (n * 2 ^ (t - j))"
    by simp
  finally show ?thesis by (rule fl_exact_ulp)
qed

lemma fl_zero: "fl 0 = 0"
  by (simp add: fl_def)

lemma binary64_dyadic:
  assumes "\<bar>n\<bar> < 2 ^ 53" "j \<le> 1074"
  shows "real_of_int n / 2 ^ j \<in> binary64"
proof -
  have "real_of_int n / 2 ^ j = real_of_int n * 2 powr real_of_int (- int j)"
    by (simp add: powr_minus_divide powr_realpow)
  moreover have "- 1074 \<le> - int j" "- int j \<le> 971"
    using assms(2) by simp_all
  ultimately show ?thesis
    unfolding binary64_def using assms(1) by blast
qed

text \<open>
  Rounding matters to the loop: for the binary64 number 0.44999999999999996 the
  exact product with 40 is below 18, but the rounded one is 18.
\<close>

lemma rounded_product_reaches_18:
  "\<lfloor>2026619832316723 / 2 ^ 52 * real_of_int COLS\<rfloor> = 17"
  "\<lfloor>fl (2026619832316723 / 2 ^ 52 * real_of_int COLS)\<rfloor> = 18"
proof -
  define x :: real where "x = 2026619832316723 / 2 ^ 52 * real_of_int COLS"
  have x: "x = 10133099161583615 / 2 ^ 49"
    by (simp add: x_def COLS_def)
  have "2 ^ 4 \<le> x" "x < 2 ^ Suc 4"
    by (simp_all add: x)
  then have "binade x = 4"
    using binade_eq [of 4 x] by simp
  then have u: "ulp x = 1 / 2 ^ 48"
    using ulp_eq [of x 4] by simp
  have "x / ulp x = x * 2 ^ 48"
    by (simp add: u)
  also have "\<dots> = 10133099161583615 / 2"
    by (simp add: x)
  finally have q: "x / ulp x = 10133099161583615 / 2" .
  have "\<lfloor>10133099161583615 / 2 :: real\<rfloor> = 5066549580791807"
    by simp
  then have r: "round_half_even (x / ulp x) = 5066549580791808"
    by (simp add: q round_half_even_def)
  have "x \<noteq> 0"
    by (simp add: x)
  then have "fl x = real_of_int (round_half_even (x / ulp x)) * ulp x"
    by (simp add: fl_def)
  also have "\<dots> = real_of_int 5066549580791808 * (1 / 2 ^ 48)"
    by (simp only: r) (simp only: u)
  also have "\<dots> = 18"
    by simp
  finally have "fl x = 18" .
  then show "\<lfloor>fl (2026619832316723 / 2 ^ 52 * real_of_int COLS)\<rfloor> = 18"
    by (simp add: x_def)
  show "\<lfloor>2026619832316723 / 2 ^ 52 * real_of_int COLS\<rfloor> = 17"
    by (simp add: COLS_def)
qed

section \<open>Properties of randomFreeCell\<close>

lemma loop_free_now:
  "(\<lfloor>fl (rnd n * real_of_int COLS)\<rfloor>, \<lfloor>fl (rnd (Suc n) * real_of_int ROWS)\<rfloor>) \<notin> occupied \<Longrightarrow>
   randomFreeCell_loop rnd n occupied =
     Some (\<lfloor>fl (rnd n * real_of_int COLS)\<rfloor>, \<lfloor>fl (rnd (Suc n) * real_of_int ROWS)\<rfloor>)"
  by (subst randomFreeCell_loop.simps) simp

lemma loop_occupied_now:
  "(\<lfloor>fl (rnd n * real_of_int COLS)\<rfloor>, \<lfloor>fl (rnd (Suc n) * real_of_int ROWS)\<rfloor>) \<in> occupied \<Longrightarrow>
   randomFreeCell_loop rnd n occupied = randomFreeCell_loop rnd (Suc (Suc n)) occupied"
  by (subst randomFreeCell_loop.simps) simp

lemma loop_skip:
  "\<forall>j<k. candidate rnd (m + j) \<in> occupied \<Longrightarrow>
   randomFreeCell_loop rnd (2 * m) occupied = randomFreeCell_loop rnd (2 * (m + k)) occupied"
proof (induction k arbitrary: m)
  case 0
  show ?case by simp
next
  case (Suc k)
  from Suc.prems have now: "candidate rnd m \<in> occupied"
    by (metis add.right_neutral zero_less_Suc)
  from Suc.prems have later: "\<forall>j<k. candidate rnd (Suc m + j) \<in> occupied"
    by (metis Suc_less_eq add_Suc_shift)
  have "randomFreeCell_loop rnd (2 * m) occupied =
        randomFreeCell_loop rnd (Suc (Suc (2 * m))) occupied"
    using now by (intro loop_occupied_now) (simp add: candidate_def)
  also have "\<dots> = randomFreeCell_loop rnd (2 * Suc m) occupied"
    by simp
  also have "\<dots> = randomFreeCell_loop rnd (2 * (Suc m + k)) occupied"
    by (rule Suc.IH [OF later])
  finally show ?case by simp
qed

lemma loop_first_free:
  assumes free: "candidate rnd k \<notin> occupied"
    and before: "\<forall>j<k. candidate rnd j \<in> occupied"
  shows "randomFreeCell_loop rnd 0 occupied = Some (candidate rnd k)"
proof -
  have "randomFreeCell_loop rnd (2 * 0) occupied = randomFreeCell_loop rnd (2 * (0 + k)) occupied"
    using before by (intro loop_skip) simp
  moreover have "randomFreeCell_loop rnd (2 * k) occupied = Some (candidate rnd k)"
    using free loop_free_now [of rnd "2 * k" occupied] by (simp add: candidate_def)
  ultimately show ?thesis by simp
qed

lemma loop_sound:
  assumes "randomFreeCell_loop rnd n occupied = Some c"
  shows "c \<notin> occupied \<and>
    (\<exists>j. c = (\<lfloor>fl (rnd (n + 2 * j) * real_of_int COLS)\<rfloor>,
              \<lfloor>fl (rnd (Suc (n + 2 * j)) * real_of_int ROWS)\<rfloor>))"
  using assms
proof (induction rnd n occupied c
    rule: randomFreeCell_loop.raw_induct [rotated 1, consumes 1, case_names round])
  case (round loop rnd n occupied c)
  show ?case
  proof (cases "(\<lfloor>fl (rnd n * real_of_int COLS)\<rfloor>, \<lfloor>fl (rnd (Suc n) * real_of_int ROWS)\<rfloor>) \<in> occupied")
    case True
    with round(2) have "loop rnd (Suc (Suc n)) occupied = Some c" by simp
    from round(1) [OF this] obtain j where
      "c \<notin> occupied" and
      "c = (\<lfloor>fl (rnd (Suc (Suc n) + 2 * j) * real_of_int COLS)\<rfloor>,
            \<lfloor>fl (rnd (Suc (Suc (Suc n) + 2 * j)) * real_of_int ROWS)\<rfloor>)"
      by blast
    then have "c \<notin> occupied \<and>
      c = (\<lfloor>fl (rnd (n + 2 * Suc j) * real_of_int COLS)\<rfloor>,
           \<lfloor>fl (rnd (Suc (n + 2 * Suc j)) * real_of_int ROWS)\<rfloor>)"
      by simp
    then show ?thesis by blast
  next
    case False
    with round(2) have "c = (\<lfloor>fl (rnd (n + 2 * 0) * real_of_int COLS)\<rfloor>,
      \<lfloor>fl (rnd (Suc (n + 2 * 0)) * real_of_int ROWS)\<rfloor>)" by simp
    moreover from this False have "c \<notin> occupied" by simp
    ultimately show ?thesis by blast
  qed
qed

lemma randomFreeCell_sound:
  "randomFreeCell excludeCells rnd = Some c \<Longrightarrow>
   c \<notin> set excludeCells \<and> (\<exists>k. c = candidate rnd k)"
  using loop_sound [of rnd 0 "set excludeCells" c]
  by (simp add: randomFreeCell_def candidate_def)

lemma candidate_in_grid:
  assumes "math_random rnd"
  shows "in_grid (candidate rnd k)"
proof -
  have draw: "0 \<le> rnd n \<and> rnd n \<le> 1 - 1 / 2 ^ 53" for n
    using assms binary64_below_one [of "rnd n"] by (simp add: math_random_def)
  have "fl (rnd (2 * k) * real_of_int 40) < real_of_int 40"
    using draw [of "2 * k"] by (intro fl_scaled_below [where k = 5]) simp_all
  moreover have "fl (rnd (Suc (2 * k)) * real_of_int 30) < real_of_int 30"
    using draw [of "Suc (2 * k)"] by (intro fl_scaled_below [where k = 4]) simp_all
  moreover have "0 \<le> fl (rnd (2 * k) * real_of_int 40)"
    "0 \<le> fl (rnd (Suc (2 * k)) * real_of_int 30)"
    using draw by (simp_all add: fl_nonneg)
  ultimately show ?thesis
    by (simp add: in_grid_def candidate_def COLS_def ROWS_def floor_less_iff le_floor_iff)
qed

lemma randomFreeCell_returns:
  assumes "\<exists>k. candidate rnd k \<notin> set excludeCells"
  shows "\<exists>c. randomFreeCell excludeCells rnd = Some c"
proof -
  define k where "k = (LEAST k. candidate rnd k \<notin> set excludeCells)"
  from assms have free: "candidate rnd k \<notin> set excludeCells"
    unfolding k_def by (rule LeastI_ex)
  have "\<forall>j<k. candidate rnd j \<in> set excludeCells"
    unfolding k_def using not_less_Least by blast
  with free have "randomFreeCell_loop rnd 0 (set excludeCells) = Some (candidate rnd k)"
    by (rule loop_first_free)
  then show ?thesis by (simp add: randomFreeCell_def)
qed

lemma randomFreeCell_never:
  assumes "\<forall>k. candidate rnd k \<in> set excludeCells"
  shows "randomFreeCell excludeCells rnd = None"
proof (cases "randomFreeCell excludeCells rnd")
  case None
  then show ?thesis .
next
  case (Some c)
  from randomFreeCell_sound [OF this] assms show ?thesis by blast
qed

lemma randomFreeCell_first_free:
  assumes "randomFreeCell excludeCells rnd = Some c"
  shows "\<exists>k. c = candidate rnd k \<and> (\<forall>j<k. candidate rnd j \<in> set excludeCells)"
proof -
  from randomFreeCell_sound [OF assms] have ex: "\<exists>k. candidate rnd k \<notin> set excludeCells"
    by blast
  define k where "k = (LEAST k. candidate rnd k \<notin> set excludeCells)"
  from ex have free: "candidate rnd k \<notin> set excludeCells"
    unfolding k_def by (rule LeastI_ex)
  have before: "\<forall>j<k. candidate rnd j \<in> set excludeCells"
    unfolding k_def using not_less_Least by blast
  with free have "randomFreeCell_loop rnd 0 (set excludeCells) = Some (candidate rnd k)"
    by (rule loop_first_free)
  with assms have "c = candidate rnd k"
    by (simp add: randomFreeCell_def)
  with before show ?thesis by blast
qed

lemma set_full_grid: "c \<in> set full_grid \<longleftrightarrow> in_grid c"
  by (cases c) (auto simp add: full_grid_def in_grid_def COLS_def ROWS_def)

lemma randomFreeCell_zero: "randomFreeCell initial_snake always_zero = Some (0, 0)"
  unfolding randomFreeCell_def
  by (subst randomFreeCell_loop.simps) (simp add: always_zero_def initial_snake_def fl_zero)

lemma math_random_zero: "math_random always_zero"
  using binary64_dyadic [of 0 0] by (simp add: math_random_def always_zero_def)

lemma candidate_zero: "candidate always_zero k = (0, 0)"
  by (simp add: candidate_def always_zero_def fl_zero)

lemma draw_17_32:
  "\<lfloor>fl (always_17_32 n * real_of_int COLS)\<rfloor> = 21"
  "\<lfloor>fl (always_17_32 n * real_of_int ROWS)\<rfloor> = 15"
proof -
  have "always_17_32 n * real_of_int COLS = real_of_int 85 / 2 ^ 2"
    by (simp add: always_17_32_def COLS_def)
  then have "fl (always_17_32 n * real_of_int COLS) = fl (real_of_int 85 / 2 ^ 2)"
    by (simp only:)
  also have "\<dots> = real_of_int 85 / 2 ^ 2"
    by (rule fl_exact [of _ 85 2]) simp_all
  finally have "\<lfloor>fl (always_17_32 n * real_of_int COLS)\<rfloor> = \<lfloor>real_of_int 85 / 2 ^ 2 :: real\<rfloor>"
    by (simp only:)
  then show "\<lfloor>fl (always_17_32 n * real_of_int COLS)\<rfloor> = 21"
    by simp
  have "always_17_32 n * real_of_int ROWS = real_of_int 255 / 2 ^ 4"
    by (simp add: always_17_32_def ROWS_def)
  then have "fl (always_17_32 n * real_of_int ROWS) = fl (real_of_int 255 / 2 ^ 4)"
    by (simp only:)
  also have "\<dots> = real_of_int 255 / 2 ^ 4"
    by (rule fl_exact [of _ 255 4]) simp_all
  finally have "\<lfloor>fl (always_17_32 n * real_of_int ROWS)\<rfloor> = \<lfloor>real_of_int 255 / 2 ^ 4 :: real\<rfloor>"
    by (simp only:)
  then show "\<lfloor>fl (always_17_32 n * real_of_int ROWS)\<rfloor> = 15"
    by simp
qed

lemma randomFreeCell_17_32: "randomFreeCell initial_snake always_17_32 = Some (21, 15)"
  unfolding randomFreeCell_def
  by (subst randomFreeCell_loop.simps) (simp add: draw_17_32 initial_snake_def)

lemma math_random_sweep: "math_random sweep"
proof -
  have "sweep n \<in> binary64 \<and> 0 \<le> sweep n \<and> sweep n < 1" for n
  proof (cases "even n")
    case True
    define m where "m = (8 * int (n div 2 div 30 mod 40) + 4) div 5"
    have "0 \<le> m" "m < 64"
      unfolding m_def by simp_all
    moreover from this have "real_of_int m / 2 ^ 6 \<in> binary64"
      by (intro binary64_dyadic) simp_all
    ultimately show ?thesis
      using True by (simp add: sweep_def m_def [symmetric])
  next
    case False
    define m where "m = (16 * int (n div 2 mod 30) + 14) div 15"
    have "0 \<le> m" "m < 32"
      unfolding m_def by simp_all
    moreover from this have "real_of_int m / 2 ^ 5 \<in> binary64"
      by (intro binary64_dyadic) simp_all
    ultimately show ?thesis
      using False by (simp add: sweep_def m_def [symmetric])
  qed
  then show ?thesis by (simp add: math_random_def)
qed

lemma candidate_sweep:
  assumes "0 \<le> a" "a < 40" "0 \<le> b" "b < 30"
  shows "candidate sweep (nat (a * 30 + b)) = (a, b)"
proof -
  define k where "k = nat (a * 30 + b)"
  have k: "int (k div 30 mod 40) = a" "int (k mod 30) = b"
    using assms by (simp_all add: k_def nat_div_distrib nat_mod_distrib zdiv_int zmod_int)
  define m where "m = (8 * a + 4) div 5"
  define l where "l = (16 * b + 14) div 15"
  have m: "0 \<le> m" "m < 64" "5 * m div 8 = a"
    using assms(1,2) by (simp_all add: m_def)
  have l: "0 \<le> l" "l < 32" "15 * l div 16 = b"
    using assms(3,4) by (simp_all add: l_def)
  have "sweep (2 * k) * real_of_int COLS = real_of_int (5 * m) / 2 ^ 3"
    by (simp add: sweep_def k m_def COLS_def)
  then have "fl (sweep (2 * k) * real_of_int COLS) = fl (real_of_int (5 * m) / 2 ^ 3)"
    by (simp only:)
  also have "\<dots> = real_of_int (5 * m) / 2 ^ 3"
    using m by (intro fl_exact [of _ "5 * m" 3]) simp_all
  also have "\<dots> = real_of_int (5 * m) / real_of_int 8"
    by simp
  finally have "fl (sweep (2 * k) * real_of_int COLS) = real_of_int (5 * m) / real_of_int 8" .
  then have "\<lfloor>fl (sweep (2 * k) * real_of_int COLS)\<rfloor> = 5 * m div 8"
    by (simp only: floor_divide_of_int_eq)
  with m(3) have col: "\<lfloor>fl (sweep (2 * k) * real_of_int COLS)\<rfloor> = a"
    by simp
  have "sweep (Suc (2 * k)) * real_of_int ROWS = real_of_int (15 * l) / 2 ^ 4"
    by (simp add: sweep_def k l_def ROWS_def)
  then have "fl (sweep (Suc (2 * k)) * real_of_int ROWS) = fl (real_of_int (15 * l) / 2 ^ 4)"
    by (simp only:)
  also have "\<dots> = real_of_int (15 * l) / 2 ^ 4"
    using l by (intro fl_exact [of _ "15 * l" 4]) simp_all
  also have "\<dots> = real_of_int (15 * l) / real_of_int 16"
    by simp
  finally have "fl (sweep (Suc (2 * k)) * real_of_int ROWS) = real_of_int (15 * l) / real_of_int 16" .
  then have "\<lfloor>fl (sweep (Suc (2 * k)) * real_of_int ROWS)\<rfloor> = 15 * l div 16"
    by (simp only: floor_divide_of_int_eq)
  with l(3) have row: "\<lfloor>fl (sweep (Suc (2 * k)) * real_of_int ROWS)\<rfloor> = b"
    by simp
  from col row show ?thesis
    by (simp add: candidate_def k_def)
qed

lemma sweep_reaches_grid: "Collect in_grid \<subseteq> range (candidate sweep)"
proof
  fix c :: cell
  assume "c \<in> Collect in_grid"
  then have "0 \<le> fst c" "fst c < 40" "0 \<le> snd c" "snd c < 30"
    by (simp_all add: in_grid_def COLS_def ROWS_def)
  from candidate_sweep [OF this] have "candidate sweep (nat (fst c * 30 + snd c)) = c"
    by simp
  then show "c \<in> range (candidate sweep)"
    by (metis rangeI)
qed

section \<open>Properties of the operations\<close>

lemma stepSnake_unbound: "''stepSnake'' \<notin> set (initGame_locals @ top_level @ host_globals)"
  by (simp add: initGame_locals_def top_level_def host_globals_def)

lemma callback_raises: "moveEvent_callback body g = Inl (ReferenceError ''stepSnake'')"
  using stepSnake_unbound by (simp only: moveEvent_callback_def if_False)

lemma after_tick_same: "after_tick body g = g"
  by (simp add: after_tick_def callback_raises)

lemma ticks_same: "ticks k body g = g"
  by (induction k) (simp_all add: after_tick_same)

lemma initGame_SomeD:
  assumes "initGame rnd g = Some g'"
  shows "\<exists>c. randomFreeCell initial_snake rnd = Some c \<and>
    g' = g\<lparr>score := 0, direction := DIR_right, nextDirection := DIR_right,
           snake := initial_snake, food := c, speedMs := 130, gameOverText := False\<rparr>"
  using assms
  by (auto simp add: initGame_def initial_snake_def COLS_def ROWS_def Let_def
      split: option.splits)

lemma initGame_SomeI:
  assumes "randomFreeCell initial_snake rnd = Some c"
  shows "initGame rnd g =
    Some (g\<lparr>score := 0, direction := DIR_right, nextDirection := DIR_right,
            snake := initial_snake, food := c, speedMs := 130, gameOverText := False\<rparr>)"
  using assms
  by (simp add: initGame_def initial_snake_def COLS_def ROWS_def Let_def)

lemma update_SomeD:
  assumes "update c spaceJustDown rnd g = Some g'"
  shows "(\<exists>d. g' = g\<lparr>nextDirection := d\<rparr> \<and> (d = nextDirection g \<or> \<not> isOpposite d (direction g)))
       \<or> (\<exists>g1. initGame rnd g1 = Some g')"
proof -
  define g1 where "g1 =
        (if left_isDown c \<and> \<not> isOpposite DIR_left (direction g)
           then g\<lparr>nextDirection := DIR_left\<rparr>
         else if right_isDown c \<and> \<not> isOpposite DIR_right (direction g)
           then g\<lparr>nextDirection := DIR_right\<rparr>
         else if up_isDown c \<and> \<not> isOpposite DIR_up (direction g)
           then g\<lparr>nextDirection := DIR_up\<rparr>
         else if down_isDown c \<and> \<not> isOpposite DIR_down (direction g)
           then g\<lparr>nextDirection := DIR_down\<rparr>
         else g)"
  have steer: "\<exists>d. g1 = g\<lparr>nextDirection := d\<rparr> \<and> (d = nextDirection g \<or> \<not> isOpposite d (direction g))"
  proof -
    have same: "\<exists>d. g = g\<lparr>nextDirection := d\<rparr> \<and>
        (d = nextDirection g \<or> \<not> isOpposite d (direction g))"
      by (rule exI [of _ "nextDirection g"]) simp
    have turn: "\<exists>d. g\<lparr>nextDirection := e\<rparr> = g\<lparr>nextDirection := d\<rparr> \<and>
        (d = nextDirection g \<or> \<not> isOpposite d (direction g))"
      if "\<not> isOpposite e (direction g)" for e
      using that by blast
    show ?thesis
      unfolding g1_def using same turn by (simp only: split: if_split) blast
  qed
  from assms have "(if gameOverText g1 \<and> spaceJustDown then initGame rnd g1 else Some g1) = Some g'"
    by (simp only: update_def g1_def Let_def)
  then consider "initGame rnd g1 = Some g'" | "g1 = g'"
    by (auto split: if_splits)
  then show ?thesis
  proof cases
    case 1
    then show ?thesis by blast
  next
    case 2
    with steer show ?thesis by blast
  qed
qed

lemma operation_cases:
  assumes "operation body g g'"
  shows "(\<exists>d. g' = g\<lparr>nextDirection := d\<rparr> \<and> (d = nextDirection g \<or> \<not> isOpposite d (direction g)))
       \<or> (\<exists>rnd g1. initGame rnd g1 = Some g')"
  using assms
proof cases
  case (op_create rnd)
  then show ?thesis by blast
next
  case (op_update c spaceJustDown rnd)
  from update_SomeD [OF this] show ?thesis by blast
next
  case op_tick
  then have "g' = g\<lparr>nextDirection := nextDirection g\<rparr>"
    by (simp add: after_tick_same)
  then show ?thesis by blast
qed

lemma reachable_invariant:
  assumes "reachable body g"
    and init: "\<And>rnd g0 g. initGame rnd g0 = Some g \<Longrightarrow> Q g"
    and keep: "\<And>g d. Q g \<Longrightarrow> d = nextDirection g \<or> \<not> isOpposite d (direction g) \<Longrightarrow>
      Q (g\<lparr>nextDirection := d\<rparr>)"
  shows "Q g"
  using assms(1)
proof induction
  case (r_create rnd g0 g)
  then show ?case by (rule init)
next
  case (r_step g g')
  from operation_cases [OF r_step.hyps(2)] show ?case
  proof
    assume "\<exists>d. g' = g\<lparr>nextDirection := d\<rparr> \<and> (d = nextDirection g \<or> \<not> isOpposite d (direction g))"
    with r_step.IH keep show ?thesis by blast
  next
    assume "\<exists>rnd g1. initGame rnd g1 = Some g'"
    with init show ?thesis by blast
  qed
qed

lemma initGame_zero:
  "initGame always_zero g =
    Some (g\<lparr>score := 0, direction := DIR_right, nextDirection := DIR_right,
            snake := initial_snake, food := (0, 0), speedMs := 130, gameOverText := False\<rparr>)"
  by (rule initGame_SomeI) (rule randomFreeCell_zero)

lemma initGame_zero_started: "initGame always_zero game_over = Some started"
  by (simp add: initGame_zero game_over_def started_def initial_snake_def)

lemma reachable_started: "reachable body started"
  using initGame_zero_started by (rule r_create)

lemma update_up_started:
  "update (only_key DIR_up) False rnd started = Some (started\<lparr>nextDirection := DIR_up\<rparr>)"
  by (simp add: update_def started_def isOpposite_def)

lemma reachable_started_up: "reachable body (started\<lparr>nextDirection := DIR_up\<rparr>)"
  using reachable_started update_up_started by (blast intro: r_step op_update)

lemma initGame_establishes:
  assumes "initGame rnd g0 = Some g"
  shows "snake g = initial_snake" "score g = 0" "direction g = DIR_right"
    "nextDirection g = DIR_right" "\<not> gameOverText g" "food g \<notin> set (snake g)"
    "\<exists>k. food g = candidate rnd k"
proof -
  from initGame_SomeD [OF assms] obtain c where
    c: "randomFreeCell initial_snake rnd = Some c" and
    g: "g = g0\<lparr>score := 0, direction := DIR_right, nextDirection := DIR_right,
           snake := initial_snake, food := c, speedMs := 130, gameOverText := False\<rparr>"
    by blast
  from g show "snake g = initial_snake" "score g = 0" "direction g = DIR_right"
    "nextDirection g = DIR_right" "\<not> gameOverText g"
    by simp_all
  from randomFreeCell_sound [OF c] g show "food g \<notin> set (snake g)" "\<exists>k. food g = candidate rnd k"
    by simp_all
qed

lemma isOpposite_pairs:
  "isOpposite a b \<longleftrightarrow>
     (a, b) \<in> {(DIR_left, DIR_right), (DIR_right, DIR_left), (DIR_up, DIR_down), (DIR_down, DIR_up)}"
  by (cases a; cases b) (simp_all add: isOpposite_def)

lemma update_only_key:
  assumes "\<not> (gameOverText g \<and> spaceJustDown)"
  shows "update (only_key d) spaceJustDown rnd g =
    Some (g\<lparr>nextDirection := (if isOpposite d (direction g) then nextDirection g else d)\<rparr>)"
  using assms by (cases d) (auto simp add: update_def)

lemma reachable_food_ahead: "reachable body food_ahead"
proof -
  have "initGame always_17_32 game_over = Some food_ahead"
    by (simp add: initGame_SomeI [OF randomFreeCell_17_32] game_over_def food_ahead_def
        initial_snake_def)
  then show ?thesis by (rule r_create)
qed



section \<open>C1: the step function is never defined\<close>

text \<open>
  Claim C1. No scope that the timer callback can see binds \<^verbatim>\<open>stepSnake\<close>, so every
  tick raises a ReferenceError, whatever a definition of the function would do, and
  leaves the variables as they were. No operation of the program moves the snake
  (it keeps its cells or is reset to the initial three), raises the score (it keeps
  its value or is reset to 0) or puts up the game-over text. Hence every reachable
  state has the initial snake, score 0, direction right and no game-over text.
\<close>

theorem stepSnake_never_defined:
  "''stepSnake'' \<notin> set (initGame_locals @ top_level @ host_globals)
   \<and> (\<forall>body g. moveEvent_callback body g = Inl (ReferenceError ''stepSnake''))
   \<and> (\<forall>body g. after_tick body g = g)
   \<and> (\<forall>body g g'. operation body g g' \<longrightarrow>
         (snake g' = snake g \<or> snake g' = initial_snake)
       \<and> (score g' = score g \<or> score g' = 0)
       \<and> (gameOverText g' \<longrightarrow> gameOverText g))
   \<and> (\<forall>body g. reachable body g \<longrightarrow>
         snake g = initial_snake \<and> score g = 0 \<and> direction g = DIR_right \<and> \<not> gameOverText g)"
proof -
  have ops: "(snake g' = snake g \<or> snake g' = initial_snake)
       \<and> (score g' = score g \<or> score g' = 0)
       \<and> (gameOverText g' \<longrightarrow> gameOverText g)"
    if "operation body g g'" for body g g'
    using operation_cases [OF that]
  proof
    assume "\<exists>d. g' = g\<lparr>nextDirection := d\<rparr> \<and> (d = nextDirection g \<or> \<not> isOpposite d (direction g))"
    then show ?thesis by auto
  next
    assume "\<exists>rnd g1. initGame rnd g1 = Some g'"
    then show ?thesis by (auto dest: initGame_establishes)
  qed
  have reach: "snake g = initial_snake \<and> score g = 0 \<and> direction g = DIR_right \<and> \<not> gameOverText g"
    if "reachable body g" for body g
    using that
  proof (rule reachable_invariant)
    fix rnd g0 g
    assume "initGame rnd g0 = Some g"
    then show "snake g = initial_snake \<and> score g = 0 \<and> direction g = DIR_right \<and> \<not> gameOverText g"
      by (simp add: initGame_establishes)
  next
    fix g d
    assume "snake g = initial_snake \<and> score g = 0 \<and> direction g = DIR_right \<and> \<not> gameOverText g"
    then show "snake (g\<lparr>nextDirection := d\<rparr>) = initial_snake \<and> score (g\<lparr>nextDirection := d\<rparr>) = 0
      \<and> direction (g\<lparr>nextDirection := d\<rparr>) = DIR_right \<and> \<not> gameOverText (g\<lparr>nextDirection := d\<rparr>)"
      by simp
  qed
  from stepSnake_unbound callback_raises after_tick_same ops reach show ?thesis
    by blast
qed

text \<open>
  A run of C1: from the state after \<^verbatim>\<open>initGame\<close>, a frame with the up arrow down is
  an operation; the state it reaches still has the initial snake and score 0, and
  the tick there raises the ReferenceError.
\<close>

theorem stepSnake_never_defined_witness:
  "operation Inr started (started\<lparr>nextDirection := DIR_up\<rparr>)
   \<and> reachable Inr (started\<lparr>nextDirection := DIR_up\<rparr>)
   \<and> snake (started\<lparr>nextDirection := DIR_up\<rparr>) = initial_snake
   \<and> score (started\<lparr>nextDirection := DIR_up\<rparr>) = 0
   \<and> \<not> gameOverText (started\<lparr>nextDirection := DIR_up\<rparr>)
   \<and> moveEvent_callback Inr (started\<lparr>nextDirection := DIR_up\<rparr>) = Inl (ReferenceError ''stepSnake'')"
proof -
  have op: "operation Inr started (started\<lparr>nextDirection := DIR_up\<rparr>)"
    using update_up_started by (rule op_update)
  have r: "reachable Inr (started\<lparr>nextDirection := DIR_up\<rparr>)"
    by (rule reachable_started_up)
  from stepSnake_never_defined op r show ?thesis
    by blast
qed

section \<open>C2: a tick with the food ahead of the head\<close>

text \<open>
  Claim C2 at its own scenario: snake (20,15), (19,15), (18,15), heading right, food
  at (21,15). The state is reachable (\<^verbatim>\<open>initGame\<close> puts the food there when both
  draws are 17/32) and the cell ahead of the head is the food. The tick raises a
  ReferenceError: the snake keeps its three cells instead of growing to
  (21,15), (20,15), (19,15), (18,15), and score and food stay as they were.
\<close>

theorem tick_with_food_ahead:
  "reachable body food_ahead
   \<and> (fst (hd (snake food_ahead)) + dir_x (nextDirection food_ahead),
       snd (hd (snake food_ahead)) + dir_y (nextDirection food_ahead)) = food food_ahead
   \<and> moveEvent_callback body food_ahead = Inl (ReferenceError ''stepSnake'')
   \<and> snake (after_tick body food_ahead) = [(20, 15), (19, 15), (18, 15)]
   \<and> snake (after_tick body food_ahead) \<noteq> [(21, 15), (20, 15), (19, 15), (18, 15)]
   \<and> score (after_tick body food_ahead) = score food_ahead
   \<and> food (after_tick body food_ahead) = (21, 15)"
  by (simp add: reachable_food_ahead callback_raises after_tick_same) (simp add: food_ahead_def)

section \<open>C3: game over and collisions\<close>



section \<open>C4: the state after initGame\<close>

text \<open>
  Claim C4. For binary64 results of \<^verbatim>\<open>Math.random()\<close> in \<open>[0, 1)\<close>, whenever
  \<^verbatim>\<open>initGame\<close> returns, the snake is the three cells (COLS div 2, ROWS div 2), one
  and two to the left of it, head first, that is (20,15), (19,15), (18,15); direction and
  nextDirection are right, the score is 0, there is no game-over text, and the food
  is a cell of the grid that is not on the snake. The call does return as soon as
  one of the candidates drawn for the food is off the snake, which is so when the
  draws reach every cell of the grid.
\<close>

theorem initGame_start_state:
  assumes "math_random rnd"
  shows "(\<forall>g'. initGame rnd g = Some g' \<longrightarrow>
            snake g' = [(COLS div 2, ROWS div 2), (COLS div 2 - 1, ROWS div 2),
                        (COLS div 2 - 2, ROWS div 2)]
          \<and> snake g' = [(20, 15), (19, 15), (18, 15)]
          \<and> length (snake g') = 3
          \<and> direction g' = DIR_right \<and> nextDirection g' = DIR_right
          \<and> score g' = 0 \<and> \<not> gameOverText g'
          \<and> in_grid (food g') \<and> food g' \<notin> set (snake g'))
       \<and> ((\<exists>k. candidate rnd k \<notin> set initial_snake) \<longrightarrow> (\<exists>g'. initGame rnd g = Some g'))
       \<and> (Collect in_grid \<subseteq> range (candidate rnd) \<longrightarrow> (\<exists>g'. initGame rnd g = Some g'))"
proof -
  have post: "snake g' = [(COLS div 2, ROWS div 2), (COLS div 2 - 1, ROWS div 2),
                        (COLS div 2 - 2, ROWS div 2)]
          \<and> snake g' = [(20, 15), (19, 15), (18, 15)]
          \<and> length (snake g') = 3
          \<and> direction g' = DIR_right \<and> nextDirection g' = DIR_right
          \<and> score g' = 0 \<and> \<not> gameOverText g'
          \<and> in_grid (food g') \<and> food g' \<notin> set (snake g')"
    if "initGame rnd g = Some g'" for g'
  proof -
    note e = initGame_establishes [OF that]
    from e(7) assms have "in_grid (food g')"
      by (auto simp add: candidate_in_grid)
    with e show ?thesis
      by (simp add: initial_snake_def COLS_def ROWS_def)
  qed
  have returns: "\<exists>g'. initGame rnd g = Some g'"
    if "\<exists>k. candidate rnd k \<notin> set initial_snake"
  proof -
    from randomFreeCell_returns [OF that] obtain c where
      "randomFreeCell initial_snake rnd = Some c" by blast
    from initGame_SomeI [OF this] show ?thesis by blast
  qed
  have fair: "\<exists>g'. initGame rnd g = Some g'"
    if "Collect in_grid \<subseteq> range (candidate rnd)"
  proof (rule returns)
    have "in_grid (0, 0)" "((0, 0) :: cell) \<notin> set initial_snake"
      by (simp_all add: in_grid_def COLS_def ROWS_def initial_snake_def)
    with that show "\<exists>k. candidate rnd k \<notin> set initial_snake"
      by (metis (no_types, lifting) imageE mem_Collect_eq subsetD)
  qed
  from post returns fair show ?thesis by blast
qed

text \<open>
  A run of C4: with every draw 0, \<^verbatim>\<open>initGame\<close> on a finished game returns the state
  \<open>started\<close>, with the food at (0, 0).
\<close>

theorem initGame_start_state_witness:
  "math_random always_zero
   \<and> candidate always_zero 0 \<notin> set initial_snake
   \<and> initGame always_zero game_over = Some started
   \<and> snake started = [(20, 15), (19, 15), (18, 15)]
   \<and> direction started = DIR_right \<and> nextDirection started = DIR_right
   \<and> score started = 0 \<and> \<not> gameOverText started
   \<and> in_grid (food started) \<and> food started \<notin> set (snake started)"
proof -
  have "candidate always_zero 0 \<notin> set initial_snake"
    by (simp add: candidate_zero initial_snake_def)
  with initGame_start_state [OF math_random_zero, of game_over] initGame_zero_started
    math_random_zero
  show ?thesis by blast
qed

section \<open>C5: requests for a direction\<close>

text \<open>
  Claim C5. A frame in which the arrow key of direction \<open>d\<close> alone is down (and
  that does not restart the game) returns normally and sets nextDirection to \<open>d\<close>
  unless \<open>d\<close> is the opposite of the current direction, in which case
  nextDirection keeps its value. \<^verbatim>\<open>isOpposite\<close> holds exactly when both offsets are
  negated, that is for left/right and up/down. In every reachable state
  nextDirection is not the opposite of direction.
\<close>

theorem direction_request:
  "(\<forall>d spaceJustDown rnd g. \<not> (gameOverText g \<and> spaceJustDown) \<longrightarrow>
       update (only_key d) spaceJustDown rnd g =
         Some (g\<lparr>nextDirection := (if isOpposite d (direction g) then nextDirection g else d)\<rparr>))
   \<and> (\<forall>a b. isOpposite a b \<longleftrightarrow> dir_x a = - dir_x b \<and> dir_y a = - dir_y b)
   \<and> (\<forall>a b. isOpposite a b \<longleftrightarrow>
         (a, b) \<in> {(DIR_left, DIR_right), (DIR_right, DIR_left), (DIR_up, DIR_down), (DIR_down, DIR_up)})
   \<and> (\<forall>body g. reachable body g \<longrightarrow> \<not> isOpposite (nextDirection g) (direction g))"
proof -
  have reach: "\<not> isOpposite (nextDirection g) (direction g)" if "reachable body g" for body g
    using that
  proof (rule reachable_invariant)
    fix rnd g0 g
    assume "initGame rnd g0 = Some g"
    then show "\<not> isOpposite (nextDirection g) (direction g)"
      by (simp add: initGame_establishes isOpposite_def)
  next
    fix g d
    assume "\<not> isOpposite (nextDirection g) (direction g)"
      and "d = nextDirection g \<or> \<not> isOpposite d (direction g)"
    then show "\<not> isOpposite (nextDirection (g\<lparr>nextDirection := d\<rparr>)) (direction (g\<lparr>nextDirection := d\<rparr>))"
      by auto
  qed
  from update_only_key isOpposite_def isOpposite_pairs reach show ?thesis
    by blast
qed

text \<open>
  A run of C5: in the state after \<^verbatim>\<open>initGame\<close> (heading right), the up arrow is
  accepted and the left arrow is dropped.
\<close>

theorem direction_request_witness:
  "\<not> (gameOverText started \<and> False)
   \<and> update (only_key DIR_up) False always_zero started = Some (started\<lparr>nextDirection := DIR_up\<rparr>)
   \<and> isOpposite DIR_left (direction started)
   \<and> update (only_key DIR_left) False always_zero started = Some started
   \<and> reachable Inr (started\<lparr>nextDirection := DIR_up\<rparr>)
   \<and> \<not> isOpposite (nextDirection (started\<lparr>nextDirection := DIR_up\<rparr>))
          (direction (started\<lparr>nextDirection := DIR_up\<rparr>))"
proof -
  have r: "reachable Inr (started\<lparr>nextDirection := DIR_up\<rparr>)"
    by (rule reachable_started_up)
  have run: "\<not> (gameOverText started \<and> False)"
    by simp
  have dirs: "direction started = DIR_right" "nextDirection started = DIR_right"
    by (simp_all add: started_def)
  from direction_request run
  have "update (only_key DIR_up) False always_zero started =
      Some (started\<lparr>nextDirection :=
        (if isOpposite DIR_up (direction started) then nextDirection started else DIR_up)\<rparr>)"
    and "update (only_key DIR_left) False always_zero started =
      Some (started\<lparr>nextDirection :=
        (if isOpposite DIR_left (direction started) then nextDirection started else DIR_left)\<rparr>)"
    by blast+
  moreover from direction_request r
  have "\<not> isOpposite (nextDirection (started\<lparr>nextDirection := DIR_up\<rparr>))
          (direction (started\<lparr>nextDirection := DIR_up\<rparr>))"
    by blast
  moreover have "started\<lparr>nextDirection := DIR_right\<rparr> = started"
    by (simp add: started_def)
  ultimately show ?thesis
    using r by (simp add: dirs isOpposite_def)
qed

section \<open>C6: a tick after an accepted turn\<close>

text \<open>
  Claim C6 at the state after \<^verbatim>\<open>initGame\<close>: the up arrow is not opposite to the
  heading and the frame stores it in nextDirection. The tick that follows raises a
  ReferenceError and the direction is still right, not up: the pending
  direction is never committed.
\<close>

theorem tick_after_turn:
  "reachable body started
   \<and> \<not> isOpposite DIR_up (direction started)
   \<and> update (only_key DIR_up) False rnd started = Some (started\<lparr>nextDirection := DIR_up\<rparr>)
   \<and> moveEvent_callback body (started\<lparr>nextDirection := DIR_up\<rparr>) = Inl (ReferenceError ''stepSnake'')
   \<and> direction (after_tick body (started\<lparr>nextDirection := DIR_up\<rparr>)) = DIR_right
   \<and> direction (after_tick body (started\<lparr>nextDirection := DIR_up\<rparr>)) \<noteq> DIR_up"
proof (intro conjI)
  show "reachable body started"
    by (rule reachable_started)
  show "update (only_key DIR_up) False rnd started = Some (started\<lparr>nextDirection := DIR_up\<rparr>)"
    by (rule update_up_started)
qed (simp_all add: callback_raises after_tick_same started_def isOpposite_def)

section \<open>C7: ticks when the game is over\<close>



section \<open>C8: the cells of the snake are distinct\<close>

text \<open>
  Claim C8. The snake that \<^verbatim>\<open>initGame\<close> builds has pairwise distinct cells; every
  operation of the program, and any number of timer ticks, keeps the cells
  distinct; so in every reachable state there is no game-over text and the cells
  of the snake are pairwise distinct.
\<close>

theorem snake_cells_distinct:
  "(\<forall>rnd g0 g. initGame rnd g0 = Some g \<longrightarrow> distinct (snake g))
   \<and> (\<forall>body g g'. distinct (snake g) \<and> operation body g g' \<longrightarrow> distinct (snake g'))
   \<and> (\<forall>body g k. distinct (snake g) \<longrightarrow> distinct (snake (ticks k body g)))
   \<and> (\<forall>body g. reachable body g \<longrightarrow> \<not> gameOverText g \<and> distinct (snake g))"
proof -
  have init: "distinct (snake g) \<and> \<not> gameOverText g" if "initGame rnd g0 = Some g" for rnd g0 g
    using initGame_establishes [OF that] by (simp add: initial_snake_def)
  have ops: "distinct (snake g')" if "distinct (snake g)" "operation body g g'" for body g g'
    using operation_cases [OF that(2)] that(1) init by auto
  have reach: "\<not> gameOverText g \<and> distinct (snake g)" if "reachable body g" for body g
    using that
  proof (rule reachable_invariant)
    fix rnd g0 g
    assume "initGame rnd g0 = Some g"
    with init show "\<not> gameOverText g \<and> distinct (snake g)" by blast
  next
    fix g d
    assume "\<not> gameOverText g \<and> distinct (snake g)"
    then show "\<not> gameOverText (g\<lparr>nextDirection := d\<rparr>) \<and> distinct (snake (g\<lparr>nextDirection := d\<rparr>))"
      by simp
  qed
  from init ops reach show ?thesis
    by (simp add: ticks_same) blast
qed

text \<open>
  A run of C8: \<^verbatim>\<open>initGame\<close>, a frame with the up arrow down, then a tick.
\<close>

theorem snake_cells_distinct_witness:
  "initGame always_zero game_over = Some started
   \<and> distinct (snake started)
   \<and> operation Inr started (started\<lparr>nextDirection := DIR_up\<rparr>)
   \<and> distinct (snake (started\<lparr>nextDirection := DIR_up\<rparr>))
   \<and> reachable Inr (after_tick Inr (started\<lparr>nextDirection := DIR_up\<rparr>))
   \<and> distinct (snake (after_tick Inr (started\<lparr>nextDirection := DIR_up\<rparr>)))"
proof -
  have op: "operation Inr started (started\<lparr>nextDirection := DIR_up\<rparr>)"
    using update_up_started by (rule op_update)
  have r: "reachable Inr (after_tick Inr (started\<lparr>nextDirection := DIR_up\<rparr>))"
    using reachable_started_up op_tick by (rule r_step)
  from snake_cells_distinct initGame_zero_started op r show ?thesis
    by blast
qed

section \<open>C9: the food is never on the snake\<close>

text \<open>
  Claim C9. The food that \<^verbatim>\<open>initGame\<close> places is on no cell of the snake; every
  operation of the program, and any number of timer ticks, keeps the food off
  the snake; so in every reachable state the food is on no cell of the snake.
\<close>

theorem food_off_snake:
  "(\<forall>rnd g0 g. initGame rnd g0 = Some g \<longrightarrow> food g \<notin> set (snake g))
   \<and> (\<forall>body g g'. food g \<notin> set (snake g) \<and> operation body g g' \<longrightarrow> food g' \<notin> set (snake g'))
   \<and> (\<forall>body g k. food g \<notin> set (snake g) \<longrightarrow>
         food (ticks k body g) \<notin> set (snake (ticks k body g)))
   \<and> (\<forall>body g. reachable body g \<longrightarrow> food g \<notin> set (snake g))"
proof -
  have init: "food g \<notin> set (snake g)" if "initGame rnd g0 = Some g" for rnd g0 g
    using that by (rule initGame_establishes)
  have ops: "food g' \<notin> set (snake g')" if "food g \<notin> set (snake g)" "operation body g g'"
    for body g g'
    using operation_cases [OF that(2)] that(1) init by auto
  have reach: "food g \<notin> set (snake g)" if "reachable body g" for body g
    using that
  proof (rule reachable_invariant)
    fix rnd g0 g
    assume "initGame rnd g0 = Some g"
    then show "food g \<notin> set (snake g)" by (rule init)
  next
    fix g d
    assume "food g \<notin> set (snake g)"
    then show "food (g\<lparr>nextDirection := d\<rparr>) \<notin> set (snake (g\<lparr>nextDirection := d\<rparr>))"
      by simp
  qed
  from init ops reach show ?thesis
    by (simp add: ticks_same) blast
qed

text \<open>
  A run of C9: \<^verbatim>\<open>initGame\<close>, a frame with the up arrow down, then a tick.
\<close>

theorem food_off_snake_witness:
  "initGame always_zero game_over = Some started
   \<and> food started \<notin> set (snake started)
   \<and> operation Inr started (started\<lparr>nextDirection := DIR_up\<rparr>)
   \<and> food (started\<lparr>nextDirection := DIR_up\<rparr>) \<notin> set (snake (started\<lparr>nextDirection := DIR_up\<rparr>))
   \<and> reachable Inr (after_tick Inr (started\<lparr>nextDirection := DIR_up\<rparr>))
   \<and> food (after_tick Inr (started\<lparr>nextDirection := DIR_up\<rparr>))
       \<notin> set (snake (after_tick Inr (started\<lparr>nextDirection := DIR_up\<rparr>)))"
proof -
  have op: "operation Inr started (started\<lparr>nextDirection := DIR_up\<rparr>)"
    using update_up_started by (rule op_update)
  have r: "reachable Inr (after_tick Inr (started\<lparr>nextDirection := DIR_up\<rparr>))"
    using reachable_started_up op_tick by (rule r_step)
  from food_off_snake initGame_zero_started op r show ?thesis
    by blast
qed

section \<open>C10: what randomFreeCell returns, and when\<close>

text \<open>
  Claim C10. Let the results of \<^verbatim>\<open>Math.random()\<close> be binary64 numbers in \<open>[0, 1)\<close>.
  \<^item> If the draws reach every cell of the grid (as uniform sampling does) and some
    cell of the grid is not occupied, \<^verbatim>\<open>randomFreeCell\<close> returns, and the cell it
    returns is inside the grid and not occupied.
  \<^item> Whenever it returns, the cell is inside the grid, not occupied, and is the
    first free candidate drawn; it returns as soon as one candidate is free.
  \<^item> When every cell of the grid is occupied, the call never returns.
\<close>

theorem randomFreeCell_contract:
  assumes "math_random rnd"
  shows "(Collect in_grid \<subseteq> range (candidate rnd) \<and> (\<exists>c. in_grid c \<and> c \<notin> set excludeCells) \<longrightarrow>
            (\<exists>c. randomFreeCell excludeCells rnd = Some c \<and> in_grid c \<and> c \<notin> set excludeCells))
       \<and> ((\<exists>k. candidate rnd k \<notin> set excludeCells) \<longrightarrow>
            (\<exists>c. randomFreeCell excludeCells rnd = Some c \<and> in_grid c \<and> c \<notin> set excludeCells))
       \<and> (\<forall>c. randomFreeCell excludeCells rnd = Some c \<longrightarrow>
            in_grid c \<and> c \<notin> set excludeCells \<and>
            (\<exists>k. c = candidate rnd k \<and> (\<forall>j<k. candidate rnd j \<in> set excludeCells)))
       \<and> ((\<forall>c. in_grid c \<longrightarrow> c \<in> set excludeCells) \<longrightarrow> randomFreeCell excludeCells rnd = None)"
proof -
  have sound: "in_grid c \<and> c \<notin> set excludeCells \<and>
      (\<exists>k. c = candidate rnd k \<and> (\<forall>j<k. candidate rnd j \<in> set excludeCells))"
    if "randomFreeCell excludeCells rnd = Some c" for c
  proof -
    from randomFreeCell_first_free [OF that] obtain k where
      k: "c = candidate rnd k" "\<forall>j<k. candidate rnd j \<in> set excludeCells" by blast
    from k(1) assms have "in_grid c" by (simp add: candidate_in_grid)
    moreover from randomFreeCell_sound [OF that] have "c \<notin> set excludeCells" by blast
    ultimately show ?thesis using k by blast
  qed
  have returns: "\<exists>c. randomFreeCell excludeCells rnd = Some c \<and> in_grid c \<and> c \<notin> set excludeCells"
    if "\<exists>k. candidate rnd k \<notin> set excludeCells"
  proof -
    from randomFreeCell_returns [OF that] obtain c where
      "randomFreeCell excludeCells rnd = Some c" by blast
    with sound [OF this] show ?thesis by blast
  qed
  have fair: "\<exists>c. randomFreeCell excludeCells rnd = Some c \<and> in_grid c \<and> c \<notin> set excludeCells"
    if "Collect in_grid \<subseteq> range (candidate rnd)" "\<exists>c. in_grid c \<and> c \<notin> set excludeCells"
  proof (rule returns)
    from that(2) obtain c where c: "in_grid c" "c \<notin> set excludeCells" by blast
    from c(1) that(1) obtain k where "c = candidate rnd k" by blast
    with c(2) show "\<exists>k. candidate rnd k \<notin> set excludeCells" by blast
  qed
  have full: "randomFreeCell excludeCells rnd = None"
    if "\<forall>c. in_grid c \<longrightarrow> c \<in> set excludeCells"
  proof (rule randomFreeCell_never)
    from that candidate_in_grid [OF assms] show "\<forall>k. candidate rnd k \<in> set excludeCells"
      by blast
  qed
  from sound returns fair full show ?thesis by blast
qed

text \<open>
  A run of C10: the draws of \<open>sweep\<close> reach every cell of the grid; the first
  candidate is (0, 0), which the initial snake leaves free; on the full grid the
  same draws never end the loop.
\<close>

theorem randomFreeCell_contract_witness:
  "math_random sweep
   \<and> Collect in_grid \<subseteq> range (candidate sweep)
   \<and> in_grid (0, 0) \<and> ((0, 0) :: cell) \<notin> set initial_snake
   \<and> randomFreeCell initial_snake sweep = Some (0, 0)
   \<and> set full_grid = Collect in_grid
   \<and> randomFreeCell full_grid sweep = None"
proof -
  have free: "in_grid (0, 0)" "((0, 0) :: cell) \<notin> set initial_snake"
    by (simp_all add: in_grid_def COLS_def ROWS_def initial_snake_def)
  have first: "candidate sweep 0 = (0, 0)"
    using candidate_sweep [of 0 0] by simp
  have full: "\<forall>c. in_grid c \<longrightarrow> c \<in> set full_grid"
    by (simp add: set_full_grid)
  note contract = randomFreeCell_contract [OF math_random_sweep]
  from contract [of initial_snake] sweep_reaches_grid free obtain c where
    c: "randomFreeCell initial_snake sweep = Some c" by blast
  with contract [of initial_snake] obtain k where
    "c = candidate sweep k" "\<forall>j<k. candidate sweep j \<in> set initial_snake" by blast
  with first free(2) have "c = (0, 0)"
    by (metis gr0I)
  with c have "randomFreeCell initial_snake sweep = Some (0, 0)" by simp
  moreover from contract [of full_grid] full
  have "randomFreeCell full_grid sweep = None"
    by blast
  ultimately show ?thesis
    using free math_random_sweep sweep_reaches_grid by (auto simp add: set_full_grid)
qed

end
